theory Spec2Isabelle
  imports Complex_Main "HOL-Library.Sublist"
begin

section \<open>Text\<close>

text \<open>
  Python's \<open>str\<close> is modelled as \<^typ>\<open>string\<close> holding the UTF-8 encoding of the text.
  Concatenation, substring search and the order of indices are the same on code points and
  on their encoding; only absolute index values differ for text outside ASCII.
\<close>

text \<open>\<open>str.find\<close>: the lowest index at which the needle occurs, \<open>None\<close> for \<open>-1\<close>.\<close>

fun py_find :: "string \<Rightarrow> string \<Rightarrow> nat option" where
  "py_find m [] = (if m = [] then Some 0 else None)"
| "py_find m (x # xs) =
     (if prefix m (x # xs) then Some 0 else map_option Suc (py_find m xs))"

text \<open>The operator \<open>in\<close> on strings.\<close>

definition py_in :: "string \<Rightarrow> string \<Rightarrow> bool" where
  "py_in m s = (py_find m s \<noteq> None)"

text \<open>\<open>s.split(m, 1)\<close>: two parts around the first occurrence, or the string alone.\<close>

definition py_split1 :: "string \<Rightarrow> string \<Rightarrow> string list" where
  "py_split1 m s =
     (case py_find m s of
        None \<Rightarrow> [s]
      | Some i \<Rightarrow> [take i s, drop (i + length m) s])"

text \<open>
  The code points for which \<open>str.isspace\<close> holds, each in its UTF-8 encoding:
  U+0009 to U+000D, U+001C to U+0020, U+0085, U+00A0, U+1680, U+2000 to U+200A, U+2028,
  U+2029, U+202F, U+205F and U+3000.
\<close>

definition whitespace :: "string list" where
  "whitespace =
     map (\<lambda>c. [c])
       [CHR 0x09, CHR 0x0A, CHR 0x0B, CHR 0x0C, CHR 0x0D,
        CHR 0x1C, CHR 0x1D, CHR 0x1E, CHR 0x1F, CHR 0x20]
     @ [[CHR 0xC2, CHR 0x85], [CHR 0xC2, CHR 0xA0], [CHR 0xE1, CHR 0x9A, CHR 0x80]]
     @ map (\<lambda>c. [CHR 0xE2, CHR 0x80, c])
       [CHR 0x80, CHR 0x81, CHR 0x82, CHR 0x83, CHR 0x84, CHR 0x85, CHR 0x86, CHR 0x87,
        CHR 0x88, CHR 0x89, CHR 0x8A, CHR 0xA8, CHR 0xA9, CHR 0xAF]
     @ [[CHR 0xE2, CHR 0x81, CHR 0x9F], [CHR 0xE3, CHR 0x80, CHR 0x80]]"

text \<open>The encoding of the whitespace code point a text starts with, if it starts with one.\<close>

definition leading_space :: "string \<Rightarrow> string option" where
  "leading_space s = List.find (\<lambda>w. prefix w s) whitespace"

text \<open>\<open>str.lstrip()\<close> removes leading whitespace code points one at a time.\<close>

function lstrip :: "string \<Rightarrow> string" where
  "lstrip s =
     (case leading_space s of
        None \<Rightarrow> s
      | Some w \<Rightarrow> lstrip (drop (length w) s))"
  by pat_completeness auto

lemma leading_space_Some:
  "leading_space s = Some w \<Longrightarrow> w \<in> set whitespace \<and> prefix w s"
  by (auto simp: leading_space_def find_Some_iff)

lemma whitespace_nonempty: "w \<in> set whitespace \<Longrightarrow> w \<noteq> []"
  by (auto simp: whitespace_def)

termination lstrip
proof (relation "measure length")
  show "wf (measure length)" by simp
next
  fix s w assume "leading_space s = Some w"
  then have "w \<noteq> []" "prefix w s"
    using leading_space_Some whitespace_nonempty by blast+
  then have "length (drop (length w) s) < length s"
    by (cases s) (auto simp: prefix_def)
  then show "(drop (length w) s, s) \<in> measure length" by simp
qed

declare lstrip.simps [simp del]

text \<open>A text made of whitespace code points only.\<close>

inductive all_space :: "string \<Rightarrow> bool" where
  nothing: "all_space []"
| more: "w \<in> set whitespace \<Longrightarrow> all_space s \<Longrightarrow> all_space (w @ s)"

section \<open>Completion stream engine\<close>

text \<open>
  The events \<open>stream_chat_completion\<close> yields. Each is a dictionary
  \<open>{"event": name, "data": payload}\<close> in the source; \<open>Ping\<close> and \<open>Done\<close> carry the
  empty payload.
\<close>

datatype event = Token string | Delimiter string | Ping | Done | Error string

definition SPEC_DELIMITER :: string where
  "SPEC_DELIMITER = ''---SPEC_START---''"

definition ping_interval :: real where
  "ping_interval = 10"

text \<open>
  One item of the provider's stream: the reading of the event-loop clock taken at the top of
  the loop body, and \<open>chunk.choices[0].delta.content\<close> (\<open>None\<close> when the chunk has no
  choices or no content).
\<close>

record chunk =
  current_time :: real
  content :: "string option"

text \<open>
  How the provider's stream ends: exhausted, or raising (from the initial request or from a
  later read) with the text \<open>str(e)\<close> of the exception.
\<close>

datatype ending = Exhausted | Raises string

record provider_stream =
  chunks :: "chunk list"
  ending :: ending

text \<open>The local variables of the generator that live across iterations.\<close>

record engine =
  accumulated_text :: string
  delimiter_sent :: bool
  last_ping :: real

text \<open>The heartbeat at the top of the loop body.\<close>

definition heartbeat :: "engine \<Rightarrow> real \<Rightarrow> event list \<times> engine" where
  "heartbeat s t =
     (if t - last_ping s \<ge> ping_interval then ([Ping], s\<lparr>last_ping := t\<rparr>) else ([], s))"

text \<open>
  The rest of the loop body, for a chunk with non-empty content. The value
  \<open>pre_delimiter\<close> of the source is computed and never used, and is left out.
\<close>

definition on_content :: "engine \<Rightarrow> string \<Rightarrow> event list \<times> engine" where
  "on_content s c =
     (let acc = accumulated_text s @ c;
          parts = py_split1 SPEC_DELIMITER acc
      in if \<not> delimiter_sent s \<and> py_in SPEC_DELIMITER acc \<and> length parts = 2
         then ([Delimiter SPEC_DELIMITER]
                 @ (if lstrip (parts ! 1) \<noteq> [] then [Token (lstrip (parts ! 1))] else []),
               s\<lparr>accumulated_text := SPEC_DELIMITER @ parts ! 1, delimiter_sent := True\<rparr>)
         else ([Token c], s\<lparr>accumulated_text := acc\<rparr>))"

text \<open>One iteration of \<open>async for chunk in stream\<close>.\<close>

definition on_chunk :: "engine \<Rightarrow> chunk \<Rightarrow> event list \<times> engine" where
  "on_chunk s c =
     (case heartbeat s (current_time c) of
        (ping, s1) \<Rightarrow>
          (case content c of
             None \<Rightarrow> (ping, s1)
           | Some d \<Rightarrow>
               if d = [] then (ping, s1)
               else (case on_content s1 d of (evs, s2) \<Rightarrow> (ping @ evs, s2))))"

text \<open>The loop: the events of each iteration, and the variables after the last one.\<close>

fun consume :: "engine \<Rightarrow> chunk list \<Rightarrow> event list list \<times> engine" where
  "consume s [] = ([], s)"
| "consume s (c # cs) =
     (case on_chunk s c of
        (evs, s1) \<Rightarrow> (case consume s1 cs of (rest, s2) \<Rightarrow> (evs # rest, s2)))"

text \<open>
  What one call produces: the events yielded, and the text handed to
  \<open>_validate_output\<close> (\<open>None\<close> when the validator is not reached).
\<close>

record outcome =
  events :: "event list"
  validated :: "string option"

definition start :: "real \<Rightarrow> engine" where
  "start t0 = \<lparr>accumulated_text = [], delimiter_sent = False, last_ping = t0\<rparr>"

text \<open>
  \<open>OpenAIService.stream_chat_completion\<close>, for a clock reading \<open>t0\<close> at entry and the
  behaviour of the provider. The prompts and the history only go into the request, so the
  provider's stream stands for them. A raising stream leaves the loop for the handler, which
  yields the error event.
\<close>

definition stream_chat_completion :: "real \<Rightarrow> provider_stream \<Rightarrow> outcome" where
  "stream_chat_completion t0 p =
     (case consume (start t0) (chunks p) of
        (tr, s) \<Rightarrow>
          (case ending p of
             Exhausted \<Rightarrow>
               \<lparr>events = concat tr @ [Done], validated = Some (accumulated_text s)\<rparr>
           | Raises msg \<Rightarrow>
               \<lparr>events = concat tr @ [Error msg], validated = None\<rparr>))"

section \<open>Observations on a run\<close>

text \<open>Reading an event sequence: which events are delimiters, which end the stream, and
  the text the token events carry.\<close>

fun is_delimiter :: "event \<Rightarrow> bool" where
  "is_delimiter (Delimiter _) = True"
| "is_delimiter _ = False"

fun is_terminal :: "event \<Rightarrow> bool" where
  "is_terminal Done = True"
| "is_terminal (Error _) = True"
| "is_terminal _ = False"

fun token_text :: "event \<Rightarrow> string" where
  "token_text (Token s) = s"
| "token_text _ = []"

definition tokens_text :: "event list \<Rightarrow> string" where
  "tokens_text es = concat (map token_text es)"

definition after_delimiter :: "event list \<Rightarrow> event list" where
  "after_delimiter es = tl (dropWhile (\<lambda>e. \<not> is_delimiter e) es)"

text \<open>The content a chunk contributes, and the concatenation of all content deltas.\<close>

definition delta :: "chunk \<Rightarrow> string" where
  "delta c = (case content c of None \<Rightarrow> [] | Some t \<Rightarrow> t)"

definition delta_text :: "chunk list \<Rightarrow> string" where
  "delta_text cs = concat (map delta cs)"



text \<open>The number of positions at which a marker occurs in a text.\<close>

definition occurrences :: "string \<Rightarrow> string \<Rightarrow> nat" where
  "occurrences m s = length (filter (\<lambda>i. prefix m (drop i s)) [0..<Suc (length s)])"

text \<open>The text after the first occurrence of a marker, and the text from it onwards.\<close>

definition following :: "string \<Rightarrow> string \<Rightarrow> string" where
  "following m s = (case py_find m s of None \<Rightarrow> [] | Some i \<Rightarrow> drop (i + length m) s)"

definition from_marker :: "string \<Rightarrow> string \<Rightarrow> string" where
  "from_marker m s = (case py_find m s of None \<Rightarrow> s | Some i \<Rightarrow> drop i s)"



definition iterations :: "real \<Rightarrow> chunk list \<Rightarrow> (real \<times> event list) list" where
  "iterations t0 cs = zip (map current_time cs) (fst (consume (start t0) cs))"


section \<open>Facts about the text operations\<close>

lemma lstrip_split: "\<exists>w. all_space w \<and> s = w @ lstrip s"
proof (induction s rule: lstrip.induct)
  case (1 s)
  show ?case
  proof (cases "leading_space s")
    case None
    then have "lstrip s = s" by (simp add: lstrip.simps)
    then show ?thesis using all_space.nothing by force
  next
    case (Some w)
    then have w: "w \<in> set whitespace" "prefix w s"
      using leading_space_Some by blast+
    from 1 [OF Some] obtain v where v: "all_space v"
      "drop (length w) s = v @ lstrip (drop (length w) s)" by blast
    have "lstrip s = lstrip (drop (length w) s)"
      using Some by (simp add: lstrip.simps)
    moreover have "s = w @ drop (length w) s"
      using w(2) by (auto simp: prefix_def)
    ultimately have "s = (w @ v) @ lstrip s" using v(2) by simp
    moreover have "all_space (w @ v)" using w(1) v(1) by (rule all_space.more)
    ultimately show ?thesis by blast
  qed
qed

lemma py_find_occurs:
  "py_find m s = Some i \<Longrightarrow> i + length m \<le> length s \<and> take (length m) (drop i s) = m"
proof (induction s arbitrary: i)
  case Nil
  then show ?case by (simp split: if_splits)
next
  case (Cons x xs)
  show ?case
  proof (cases "prefix m (x # xs)")
    case True
    then have "i = 0" using Cons.prems by simp
    moreover from True have "length m \<le> length (x # xs)"
      by (rule prefix_length_le)
    moreover from True obtain zs where "x # xs = m @ zs" by (rule prefixE)
    then have "take (length m) (x # xs) = m" by (metis append_eq_conv_conj)
    ultimately show ?thesis by simp
  next
    case False
    then obtain j where j: "py_find m xs = Some j" "i = Suc j"
      using Cons.prems by auto
    from Cons.IH [OF j(1)] show ?thesis using j(2) by simp
  qed
qed

lemma py_find_split:
  assumes "py_find m s = Some i"
  shows "s = take i s @ m @ drop (i + length m) s"
proof -
  from py_find_occurs [OF assms] have "take (length m) (drop i s) = m" by simp
  then have "drop i s = m @ drop (length m) (drop i s)"
    by (metis append_take_drop_id)
  then have "take i s @ m @ drop (i + length m) s = take i s @ drop i s"
    by (simp add: add.commute)
  then show ?thesis by simp
qed

lemma py_find_append:
  "py_find m s = Some i \<Longrightarrow> py_find m (s @ t) = Some i"
proof (induction s arbitrary: i)
  case Nil
  then have "m = []" by (simp split: if_splits)
  moreover have "i = 0" using Nil by (simp split: if_splits)
  ultimately show ?case by (cases t) simp_all
next
  case (Cons x xs)
  show ?case
  proof (cases "prefix m (x # xs)")
    case True
    then have "prefix m ((x # xs) @ t)" by (rule prefix_prefix)
    then show ?thesis using True Cons.prems by simp
  next
    case False
    then obtain j where j: "py_find m xs = Some j" "i = Suc j"
      using Cons.prems by auto
    from py_find_occurs [OF j(1)] have len: "length m \<le> length (x # xs)" by simp
    have "\<not> prefix m ((x # xs) @ t)"
    proof
      assume "prefix m ((x # xs) @ t)"
      then have "prefix m (x # xs)" using len
        by (metis prefix_length_prefix prefix_append prefixI)
      then show False using False by simp
    qed
    then show ?thesis using Cons.IH [OF j(1)] j(2) by simp
  qed
qed

lemma py_in_append: "py_in m s \<Longrightarrow> py_in m (s @ t)"
  unfolding py_in_def using py_find_append by fastforce

section \<open>Facts about the loop\<close>

lemma on_chunk_sent:
  assumes "delimiter_sent s" "on_chunk s c = (evs, s')"
  shows "filter is_delimiter evs = [] \<and> tokens_text evs = delta c
       \<and> accumulated_text s' = accumulated_text s @ delta c \<and> delimiter_sent s'"
  using assms
  by (auto simp: on_chunk_def heartbeat_def on_content_def delta_def tokens_text_def Let_def
           split: option.splits if_splits prod.splits)

lemma on_chunk_quiet:
  assumes "\<not> delimiter_sent s"
    "\<not> py_in SPEC_DELIMITER (accumulated_text s @ delta c)"
    "on_chunk s c = (evs, s')"
  shows "filter is_delimiter evs = [] \<and> tokens_text evs = delta c
       \<and> accumulated_text s' = accumulated_text s @ delta c \<and> \<not> delimiter_sent s'"
  using assms
  by (auto simp: on_chunk_def heartbeat_def on_content_def delta_def tokens_text_def Let_def
           split: option.splits if_splits prod.splits)

lemma on_chunk_detect:
  assumes "\<not> delimiter_sent s"
    "\<not> py_in SPEC_DELIMITER (accumulated_text s)"
    "py_find SPEC_DELIMITER (accumulated_text s @ delta c) = Some j"
    "on_chunk s c = (evs, s')"
  shows "\<exists>ping rest. evs = ping @ Delimiter SPEC_DELIMITER # rest
       \<and> filter is_delimiter ping = [] \<and> filter is_delimiter rest = []
       \<and> tokens_text rest
           = lstrip (drop (j + length SPEC_DELIMITER) (accumulated_text s @ delta c))
       \<and> accumulated_text s'
           = SPEC_DELIMITER @ drop (j + length SPEC_DELIMITER) (accumulated_text s @ delta c)
       \<and> delimiter_sent s'"
proof -
  define post where "post = drop (j + length SPEC_DELIMITER) (accumulated_text s @ delta c)"
  have ne: "delta c \<noteq> []"
    using assms(2,3) by (auto simp: py_in_def)
  then obtain d where d: "content c = Some d" "d \<noteq> []" "delta c = d"
    by (auto simp: delta_def split: option.splits)
  let ?acc = "accumulated_text s @ d"
  have parts: "py_split1 SPEC_DELIMITER ?acc = [take j ?acc, post]"
    using assms(3) d(3) by (simp add: py_split1_def post_def)
  have inn: "py_in SPEC_DELIMITER ?acc"
    using assms(3) d(3) by (simp add: py_in_def)
  show ?thesis
  proof (cases "current_time c - last_ping s \<ge> ping_interval")
    case True
    then have "evs = [Ping] @ Delimiter SPEC_DELIMITER #
        (if lstrip post \<noteq> [] then [Token (lstrip post)] else [])
      \<and> accumulated_text s' = SPEC_DELIMITER @ post \<and> delimiter_sent s'"
      using assms(1,4) d parts inn
      by (auto simp: on_chunk_def heartbeat_def on_content_def Let_def)
    then show ?thesis
      unfolding post_def [symmetric]
      by (intro exI [of _ "[Ping]"]
                exI [of _ "if lstrip post \<noteq> [] then [Token (lstrip post)] else []"])
         (simp add: tokens_text_def)
  next
    case False
    then have "evs = [] @ Delimiter SPEC_DELIMITER #
        (if lstrip post \<noteq> [] then [Token (lstrip post)] else [])
      \<and> accumulated_text s' = SPEC_DELIMITER @ post \<and> delimiter_sent s'"
      using assms(1,4) d parts inn
      by (auto simp: on_chunk_def heartbeat_def on_content_def Let_def)
    then show ?thesis
      unfolding post_def [symmetric]
      by (intro exI [of _ "[]"]
                exI [of _ "if lstrip post \<noteq> [] then [Token (lstrip post)] else []"])
         (simp add: tokens_text_def)
  qed
qed

lemma tokens_text_append [simp]: "tokens_text (xs @ ys) = tokens_text xs @ tokens_text ys"
  by (simp add: tokens_text_def)

lemma delta_text_Cons [simp]: "delta_text (c # cs) = delta c @ delta_text cs"
  by (simp add: delta_text_def)

lemma delta_text_Nil [simp]: "delta_text [] = []"
  by (simp add: delta_text_def)

lemma consume_sent:
  "delimiter_sent s \<Longrightarrow> consume s cs = (tr, s') \<Longrightarrow>
   filter is_delimiter (concat tr) = [] \<and> tokens_text (concat tr) = delta_text cs
   \<and> accumulated_text s' = accumulated_text s @ delta_text cs"
proof (induction cs arbitrary: s tr s')
  case Nil
  then show ?case by (simp add: tokens_text_def)
next
  case (Cons c cs)
  obtain evs s1 where step: "on_chunk s c = (evs, s1)" by (cases "on_chunk s c")
  obtain rest s2 where more: "consume s1 cs = (rest, s2)" by (cases "consume s1 cs")
  from Cons.prems(2) step more have tr: "tr = evs # rest" "s' = s2" by simp_all
  from on_chunk_sent [OF Cons.prems(1) step]
  have one: "filter is_delimiter evs = []" "tokens_text evs = delta c"
    "accumulated_text s1 = accumulated_text s @ delta c" "delimiter_sent s1" by simp_all
  from Cons.IH [OF one(4) more] one tr show ?case by simp
qed

lemma consume_never:
  "\<not> delimiter_sent s \<Longrightarrow> \<not> py_in SPEC_DELIMITER (accumulated_text s @ delta_text cs) \<Longrightarrow>
   consume s cs = (tr, s') \<Longrightarrow>
   filter is_delimiter (concat tr) = [] \<and> accumulated_text s' = accumulated_text s @ delta_text cs"
proof (induction cs arbitrary: s tr s')
  case Nil
  then show ?case by simp
next
  case (Cons c cs)
  obtain evs s1 where step: "on_chunk s c = (evs, s1)" by (cases "on_chunk s c")
  obtain rest s2 where more: "consume s1 cs = (rest, s2)" by (cases "consume s1 cs")
  from Cons.prems(3) step more have tr: "tr = evs # rest" "s' = s2" by simp_all
  have "\<not> py_in SPEC_DELIMITER (accumulated_text s @ delta c)"
    using Cons.prems(2) py_in_append [of SPEC_DELIMITER "accumulated_text s @ delta c" "delta_text cs"]
    by auto
  from on_chunk_quiet [OF Cons.prems(1) this step]
  have one: "filter is_delimiter evs = []"
    "accumulated_text s1 = accumulated_text s @ delta c" "\<not> delimiter_sent s1" by simp_all
  have "\<not> py_in SPEC_DELIMITER (accumulated_text s1 @ delta_text cs)"
    using Cons.prems(2) one(2) by simp
  from Cons.IH [OF one(3) this more] one tr show ?case by simp
qed

lemma drop_at_find:
  assumes "py_find m s = Some i"
  shows "drop i s = m @ drop (i + length m) s"
proof -
  from py_find_occurs [OF assms] have "take (length m) (drop i s) = m" by simp
  then have "drop i s = m @ drop (length m) (drop i s)"
    by (metis append_take_drop_id)
  then show ?thesis by (simp add: add.commute)
qed

lemma consume_pre:
  "\<not> delimiter_sent s \<Longrightarrow> \<not> py_in SPEC_DELIMITER (accumulated_text s) \<Longrightarrow>
   py_find SPEC_DELIMITER (accumulated_text s @ delta_text cs) = Some i \<Longrightarrow>
   consume s cs = (tr, s') \<Longrightarrow>
   \<exists>pre post w. concat tr = pre @ Delimiter SPEC_DELIMITER # post
     \<and> filter is_delimiter pre = [] \<and> filter is_delimiter post = []
     \<and> all_space w
     \<and> drop (i + length SPEC_DELIMITER) (accumulated_text s @ delta_text cs) = w @ tokens_text post
     \<and> accumulated_text s' = drop i (accumulated_text s @ delta_text cs)"
proof (induction cs arbitrary: s tr s')
  case Nil
  then show ?case by (simp add: py_in_def)
next
  case (Cons c cs)
  obtain evs s1 where step: "on_chunk s c = (evs, s1)" by (cases "on_chunk s c")
  obtain rest s2 where more: "consume s1 cs = (rest, s2)" by (cases "consume s1 cs")
  from Cons.prems(4) step more have tr: "tr = evs # rest" "s' = s2" by simp_all
  let ?now = "accumulated_text s @ delta c"
  let ?all = "accumulated_text s @ delta_text (c # cs)"
  have all: "?all = ?now @ delta_text cs" by simp
  show ?case
  proof (cases "py_in SPEC_DELIMITER ?now")
    case True
    then obtain j where j: "py_find SPEC_DELIMITER ?now = Some j"
      by (auto simp: py_in_def)
    from py_find_append [OF j, of "delta_text cs"] Cons.prems(3) have ij: "i = j"
      by simp
    define post where "post = drop (j + length SPEC_DELIMITER) ?now"
    from on_chunk_detect [OF Cons.prems(1,2) j step]
    obtain ping after where one: "evs = ping @ Delimiter SPEC_DELIMITER # after"
      "filter is_delimiter ping = []" "filter is_delimiter after = []"
      "tokens_text after = lstrip post"
      "accumulated_text s1 = SPEC_DELIMITER @ post" "delimiter_sent s1"
      unfolding post_def by blast
    from consume_sent [OF one(6) more]
    have two: "filter is_delimiter (concat rest) = []"
      "tokens_text (concat rest) = delta_text cs"
      "accumulated_text s2 = accumulated_text s1 @ delta_text cs" by simp_all
    obtain w where w: "all_space w" "post = w @ lstrip post"
      using lstrip_split by blast
    have len: "j + length SPEC_DELIMITER \<le> length ?now"
      using py_find_occurs [OF j] by simp
    have following: "drop (i + length SPEC_DELIMITER) ?all = post @ delta_text cs"
      unfolding all post_def ij using len by simp
    have "concat tr = ping @ Delimiter SPEC_DELIMITER # (after @ concat rest)"
      using tr one(1) by simp
    moreover have "filter is_delimiter (after @ concat rest) = []"
      using one(3) two(1) by simp
    moreover have "drop (i + length SPEC_DELIMITER) ?all
        = w @ tokens_text (after @ concat rest)"
      using following w(2) one(4) two(2) by simp
    moreover have "accumulated_text s' = drop i ?all"
    proof -
      have "drop i ?all = SPEC_DELIMITER @ drop (i + length SPEC_DELIMITER) ?all"
        using Cons.prems(3) by (rule drop_at_find)
      then show ?thesis using following two(3) one(5) tr(2) by simp
    qed
    ultimately show ?thesis using one(2) w(1) by blast
  next
    case False
    from on_chunk_quiet [OF Cons.prems(1) False step]
    have one: "filter is_delimiter evs = []"
      "accumulated_text s1 = ?now" "\<not> delimiter_sent s1" by simp_all
    have "\<not> py_in SPEC_DELIMITER (accumulated_text s1)" using False one(2) by simp
    moreover have "py_find SPEC_DELIMITER (accumulated_text s1 @ delta_text cs) = Some i"
      using Cons.prems(3) one(2) by simp
    ultimately obtain pre post w where ih:
      "concat rest = pre @ Delimiter SPEC_DELIMITER # post"
      "filter is_delimiter pre = []" "filter is_delimiter post = []" "all_space w"
      "drop (i + length SPEC_DELIMITER) (accumulated_text s1 @ delta_text cs)
         = w @ tokens_text post"
      "accumulated_text s2 = drop i (accumulated_text s1 @ delta_text cs)"
      using Cons.IH [OF one(3) _ _ more] by blast
    have "concat tr = (evs @ pre) @ Delimiter SPEC_DELIMITER # post"
      using tr ih(1) by simp
    moreover have "filter is_delimiter (evs @ pre) = []" using one(1) ih(2) by simp
    ultimately show ?thesis using ih(3-6) one(2) tr(2) by (metis all)
  qed
qed

lemma on_chunk_bound:
  assumes "on_chunk s c = (evs, s')"
  shows "filter is_terminal evs = []
       \<and> length (filter is_delimiter evs) \<le> (if delimiter_sent s then 0 else 1)
       \<and> (if delimiter_sent s \<or> filter is_delimiter evs \<noteq> [] then delimiter_sent s' else True)"
  using assms
  by (auto simp: on_chunk_def heartbeat_def on_content_def Let_def
           split: option.splits if_splits prod.splits)

lemma consume_bound:
  "consume s cs = (tr, s') \<Longrightarrow>
   filter is_terminal (concat tr) = []
   \<and> length (filter is_delimiter (concat tr)) \<le> (if delimiter_sent s then 0 else 1)"
proof (induction cs arbitrary: s tr s')
  case Nil
  then show ?case by simp
next
  case (Cons c cs)
  obtain evs s1 where step: "on_chunk s c = (evs, s1)" by (cases "on_chunk s c")
  obtain rest s2 where more: "consume s1 cs = (rest, s2)" by (cases "consume s1 cs")
  from Cons.prems step more have tr: "tr = evs # rest" by simp
  note one = on_chunk_bound [OF step]
  note ih = Cons.IH [OF more]
  show ?case
  proof (cases "delimiter_sent s \<or> filter is_delimiter evs \<noteq> []")
    case True
    then have "delimiter_sent s1" using one by simp
    then have "filter is_delimiter (concat rest) = []" using ih by simp
    then show ?thesis using one ih tr by simp
  next
    case False
    then show ?thesis using one ih tr by (simp split: if_splits)
  qed
qed


lemma start_fields [simp]:
  "accumulated_text (start t0) = []" "\<not> delimiter_sent (start t0)" "last_ping (start t0) = t0"
  by (simp_all add: start_def)

lemma not_in_empty: "\<not> py_in SPEC_DELIMITER []"
  by (simp add: py_in_def SPEC_DELIMITER_def)

lemma events_eq:
  "events (stream_chat_completion t0 p)
     = concat (fst (consume (start t0) (chunks p)))
       @ [case ending p of Exhausted \<Rightarrow> Done | Raises msg \<Rightarrow> Error msg]"
  by (simp add: stream_chat_completion_def split: prod.splits ending.splits)

lemma validated_eq:
  "ending p = Exhausted \<Longrightarrow>
   validated (stream_chat_completion t0 p)
     = Some (accumulated_text (snd (consume (start t0) (chunks p))))"
  by (simp add: stream_chat_completion_def split: prod.splits)

text \<open>The equations that evaluate a run on a concrete stream.\<close>

lemmas engine_eval =
  stream_chat_completion_def start_def on_chunk_def heartbeat_def on_content_def Let_def
  py_in_def py_split1_def SPEC_DELIMITER_def ping_interval_def delta_text_def delta_def
  leading_space_def whitespace_def after_delimiter_def tokens_text_def following_def
  from_marker_def occurrences_def iterations_def lstrip.simps




text \<open>
  Claim C2. Whatever the provider's stream does, raising included, the events hold at most
  one delimiter event and exactly one terminal event (\<open>Done\<close> or \<open>Error\<close>), and the
  terminal event is the last event.
\<close>

theorem one_terminal_event_last:
  "length (filter is_delimiter (events (stream_chat_completion t0 p))) \<le> 1
   \<and> length (filter is_terminal (events (stream_chat_completion t0 p))) = 1
   \<and> is_terminal (last (events (stream_chat_completion t0 p)))"
proof -
  obtain tr s where run: "consume (start t0) (chunks p) = (tr, s)"
    by (cases "consume (start t0) (chunks p)")
  let ?last = "case ending p of Exhausted \<Rightarrow> Done | Raises msg \<Rightarrow> Error msg"
  have ev: "events (stream_chat_completion t0 p) = concat tr @ [?last]"
    using run by (simp add: events_eq)
  have last: "\<not> is_delimiter ?last" "is_terminal ?last"
    by (simp_all split: ending.splits)
  from consume_bound [OF run]
  have "filter is_terminal (concat tr) = []" "length (filter is_delimiter (concat tr)) \<le> 1"
    by simp_all
  then show ?thesis using ev last by simp
qed

theorem one_terminal_event_last_witness:
  "length (filter is_delimiter (events (stream_chat_completion 0
      \<lparr>chunks = [\<lparr>current_time = 1, content = Some ''---SPEC_START---a''\<rparr>,
                 \<lparr>current_time = 2, content = Some ''---SPEC_START---b''\<rparr>],
       ending = Raises ''connection reset''\<rparr>))) \<le> 1
   \<and> length (filter is_terminal (events (stream_chat_completion 0
      \<lparr>chunks = [\<lparr>current_time = 1, content = Some ''---SPEC_START---a''\<rparr>,
                 \<lparr>current_time = 2, content = Some ''---SPEC_START---b''\<rparr>],
       ending = Raises ''connection reset''\<rparr>))) = 1
   \<and> is_terminal (last (events (stream_chat_completion 0
      \<lparr>chunks = [\<lparr>current_time = 1, content = Some ''---SPEC_START---a''\<rparr>,
                 \<lparr>current_time = 2, content = Some ''---SPEC_START---b''\<rparr>],
       ending = Raises ''connection reset''\<rparr>)))"
  by (rule one_terminal_event_last)

text \<open>
  Claim C3, as amended. When the provider's stream ends normally, the validator receives
  the concatenation of all content deltas from the first occurrence of the delimiter marker
  onwards, and the whole concatenation when the marker never occurs: the text before the
  marker is discarded when the engine resets its buffer at the marker.
\<close>

theorem validated_text_from_marker:
  assumes "ending p = Exhausted"
  shows "validated (stream_chat_completion t0 p)
           = Some (from_marker SPEC_DELIMITER (delta_text (chunks p)))"
proof -
  obtain tr s where run: "consume (start t0) (chunks p) = (tr, s)"
    by (cases "consume (start t0) (chunks p)")
  have v: "validated (stream_chat_completion t0 p) = Some (accumulated_text s)"
    using run assms by (simp add: validated_eq)
  show ?thesis
  proof (cases "py_find SPEC_DELIMITER (delta_text (chunks p))")
    case None
    then have "\<not> py_in SPEC_DELIMITER (accumulated_text (start t0) @ delta_text (chunks p))"
      by (simp add: py_in_def)
    from consume_never [OF _ this run] have "accumulated_text s = delta_text (chunks p)"
      by simp
    then show ?thesis using v None by (simp add: from_marker_def)
  next
    case (Some i)
    from consume_pre [of "start t0" "chunks p" i tr s] Some run not_in_empty
    have "accumulated_text s = drop i (delta_text (chunks p))" by auto
    then show ?thesis using v Some by (simp add: from_marker_def)
  qed
qed

theorem validated_text_from_marker_witness:
  "ending \<lparr>chunks = [\<lparr>current_time = 1, content = Some ''Hi ''\<rparr>,
                 \<lparr>current_time = 2, content = Some ''---SPEC_START---x''\<rparr>],
       ending = Exhausted\<rparr> = Exhausted
   \<and> validated (stream_chat_completion 0
      \<lparr>chunks = [\<lparr>current_time = 1, content = Some ''Hi ''\<rparr>,
                 \<lparr>current_time = 2, content = Some ''---SPEC_START---x''\<rparr>],
       ending = Exhausted\<rparr>)
     = Some (from_marker SPEC_DELIMITER (delta_text (chunks
      \<lparr>chunks = [\<lparr>current_time = 1, content = Some ''Hi ''\<rparr>,
                 \<lparr>current_time = 2, content = Some ''---SPEC_START---x''\<rparr>],
       ending = Exhausted\<rparr>)))"
  using validated_text_from_marker [of
      "\<lparr>chunks = [\<lparr>current_time = 1, content = Some ''Hi ''\<rparr>,
                 \<lparr>current_time = 2, content = Some ''---SPEC_START---x''\<rparr>],
       ending = Exhausted\<rparr>" 0]
  by simp

text \<open>
  The claim as the specification words it fails as soon as text precedes the marker: the
  deltas concatenate to \<open>Hi ---SPEC_START---x\<close>, the validator receives
  \<open>---SPEC_START---x\<close>.
\<close>

theorem validated_text_drops_preamble:
  "validated (stream_chat_completion 0
      \<lparr>chunks = [\<lparr>current_time = 1, content = Some ''Hi ''\<rparr>,
                 \<lparr>current_time = 2, content = Some ''---SPEC_START---x''\<rparr>],
       ending = Exhausted\<rparr>) = Some ''---SPEC_START---x''
   \<and> delta_text (chunks
      \<lparr>chunks = [\<lparr>current_time = 1, content = Some ''Hi ''\<rparr>,
                 \<lparr>current_time = 2, content = Some ''---SPEC_START---x''\<rparr>],
       ending = Exhausted\<rparr>) = ''Hi ---SPEC_START---x''"
  by (simp add: engine_eval)







section \<open>Errors\<close>

text \<open>
  The exceptions the services raise. \<open>ValidationError\<close> is the response models'
  validation error, a subclass of \<open>ValueError\<close>; \<open>Failure\<close> is any other exception of
  a collaborator (the store, the provider), with its text.
\<close>

datatype error =
    ValueError string
  | ValidationError string
  | TypeError
  | AttributeError
  | KeyError
  | Failure string


section \<open>Formatting integers\<close>

definition digit :: "nat \<Rightarrow> char" where
  "digit n = ''0123456789'' ! n"

fun str_nat :: "nat \<Rightarrow> string" where
  "str_nat n = (if n < 10 then [digit n] else str_nat (n div 10) @ [digit (n mod 10)])"

declare str_nat.simps [simp del]

text \<open>\<open>str(i)\<close> for an integer, as f-strings render it.\<close>

definition str_int :: "int \<Rightarrow> string" where
  "str_int i = (if i < 0 then ''-'' @ str_nat (nat (- i)) else str_nat (nat i))"

section \<open>Prompt cache\<close>

text \<open>The tuples the fetch operations cache and return.\<close>

datatype cached = Base_tuple string int int | Instr_tuple string int

record entry =
  key :: string
  val :: cached
  inserted :: real

text \<open>
  Modelled from the spec: the cache class \<open>TTLCache\<close> of the library \<open>cachetools\<close>, which
  is not part of the repository. Following the data model (CacheEntry) and the cache
  contract, an entry is evicted when \<open>now - insertedAt > ttl\<close> or, least recently used
  first, when the cache would exceed its maximum entry count. The entries are kept least
  recently used first.
\<close>

record ttl_cache =
  maxsize :: nat
  ttl :: real
  entries :: "entry list"

definition live :: "ttl_cache \<Rightarrow> real \<Rightarrow> entry \<Rightarrow> bool" where
  "live c now e = (\<not> now - inserted e > ttl c)"

text \<open>\<open>key in cache\<close>.\<close>

definition cache_contains :: "ttl_cache \<Rightarrow> real \<Rightarrow> string \<Rightarrow> bool" where
  "cache_contains c now k =
     (case List.find (\<lambda>e. key e = k) (entries c) of
        None \<Rightarrow> False
      | Some e \<Rightarrow> live c now e)"

text \<open>\<open>cache[key]\<close>: the value, the entry becoming the most recently used; \<open>None\<close> where
  the library raises \<open>KeyError\<close>.\<close>

definition cache_get :: "ttl_cache \<Rightarrow> real \<Rightarrow> string \<Rightarrow> cached option \<times> ttl_cache" where
  "cache_get c now k =
     (case List.find (\<lambda>e. key e = k) (entries c) of
        None \<Rightarrow> (None, c)
      | Some e \<Rightarrow>
          if live c now e
          then (Some (val e), c\<lparr>entries := filter (\<lambda>e. key e \<noteq> k) (entries c) @ [e]\<rparr>)
          else (None, c))"

text \<open>\<open>cache[key] = value\<close>: expired entries go, then least recently used ones until
  there is room, and the new entry is the most recently used.\<close>

definition cache_set :: "ttl_cache \<Rightarrow> real \<Rightarrow> string \<Rightarrow> cached \<Rightarrow> ttl_cache" where
  "cache_set c now k v =
     (let kept = filter (\<lambda>e. live c now e \<and> key e \<noteq> k) (entries c);
          room = drop (Suc (length kept) - maxsize c) kept
      in c\<lparr>entries := room @ [\<lparr>key = k, val = v, inserted = now\<rparr>]\<rparr>)"

definition cache_clear :: "ttl_cache \<Rightarrow> ttl_cache" where
  "cache_clear c = c\<lparr>entries := []\<rparr>"

text \<open>\<open>_get_cache\<close>, when the module's cache is still unset: the configured time to live
  (300 seconds by default) and room for 100 entries.\<close>

definition get_cache :: "real \<Rightarrow> ttl_cache" where
  "get_cache prompt_cache_ttl_seconds =
     \<lparr>maxsize = 100, ttl = prompt_cache_ttl_seconds, entries = []\<rparr>"

definition cache_key :: "string \<Rightarrow> string \<Rightarrow> int \<Rightarrow> string" where
  "cache_key pre identifier version = pre @ '':'' @ identifier @ '':v'' @ str_int version"

section \<open>Prompt store\<close>

text \<open>
  The rows a query selects, as tuples of their columns:
  \<open>(prompt_template, version, contract_version)\<close> of \<open>base_prompts\<close>, and
  \<open>(instructions, version)\<close> of \<open>agent_prompts\<close> and \<open>spec_mode_prompts\<close>.
\<close>

type_synonym base_row = "string \<times> int \<times> int"

type_synonym instr_row = "string \<times> int"

text \<open>
  The store is an external collaborator, given by what \<open>execute()\<close> answers to each query
  the service builds: on a table, for the active rows of an identifier, either with
  \<open>eq("version", v)\<close> (\<open>Some v\<close>) or with \<open>order("version", desc=True).limit(1)\<close>
  (\<open>None\<close>). It answers with rows, or raises an exception of its own with some text.
\<close>

record store =
  base_prompts :: "string \<Rightarrow> int option \<Rightarrow> string + base_row list"
  agent_prompts :: "string \<Rightarrow> int option \<Rightarrow> string + instr_row list"
  spec_mode_prompts :: "string \<Rightarrow> int option \<Rightarrow> string + instr_row list"

datatype table = Base_prompts | Agent_prompts | Spec_mode_prompts

text \<open>The service: its cache, and the queries it has sent to the store so far.\<close>

record service =
  cache :: ttl_cache
  executed :: "(table \<times> string \<times> int option) list"

text \<open>\<open>version or 0\<close> and the test \<open>if version\<close> for an optional integer.\<close>

definition or_zero :: "int option \<Rightarrow> int" where
  "or_zero version = (case version of None \<Rightarrow> 0 | Some v \<Rightarrow> if v = 0 then 0 else v)"

definition truthy :: "int option \<Rightarrow> bool" where
  "truthy version = (case version of None \<Rightarrow> False | Some v \<Rightarrow> v \<noteq> 0)"

text \<open>The version filter of the query built: a truthy version, or the latest.\<close>

definition version_filter :: "int option \<Rightarrow> int option" where
  "version_filter version = (if truthy version then version else None)"

text \<open>The cache hit shared by the three fetch operations: \<open>return self.cache[cache_key]\<close>.\<close>

definition cache_hit :: "service \<Rightarrow> real \<Rightarrow> string \<Rightarrow> (error + cached option) \<times> service" where
  "cache_hit w now k =
     (case cache_get (cache w) now k of
        (None, c) \<Rightarrow> (Inl KeyError, w\<lparr>cache := c\<rparr>)
      | (Some v, c) \<Rightarrow> (Inr (Some v), w\<lparr>cache := c\<rparr>))"

text \<open>\<open>PromptService.get_base_prompt\<close>, at clock reading \<open>now\<close>.\<close>

definition get_base_prompt ::
  "store \<Rightarrow> service \<Rightarrow> real \<Rightarrow> string \<Rightarrow> int option \<Rightarrow> (error + cached option) \<times> service" where
  "get_base_prompt S w now slug version =
     (let k = cache_key ''base'' slug (or_zero version) in
      if cache_contains (cache w) now k then cache_hit w now k
      else
        let q = version_filter version;
            w1 = w\<lparr>executed := executed w @ [(Base_prompts, slug, q)]\<rparr>
        in case base_prompts S slug q of
             Inl msg \<Rightarrow> (Inl (Failure msg), w1)
           | Inr [] \<Rightarrow> (Inr None, w1)
           | Inr ((prompt_template, row_version, row_contract_version) # _) \<Rightarrow>
               let cached_value = Base_tuple prompt_template row_version row_contract_version
               in (Inr (Some cached_value),
                   w1\<lparr>cache := cache_set (cache w1) now k cached_value\<rparr>))"

text \<open>\<open>PromptService.get_agent_prompt\<close>.\<close>

definition get_agent_prompt ::
  "store \<Rightarrow> service \<Rightarrow> real \<Rightarrow> string \<Rightarrow> int option \<Rightarrow> (error + cached option) \<times> service" where
  "get_agent_prompt S w now agent_id version =
     (let k = cache_key ''agent'' agent_id (or_zero version) in
      if cache_contains (cache w) now k then cache_hit w now k
      else
        let q = version_filter version;
            w1 = w\<lparr>executed := executed w @ [(Agent_prompts, agent_id, q)]\<rparr>
        in case agent_prompts S agent_id q of
             Inl msg \<Rightarrow> (Inl (Failure msg), w1)
           | Inr [] \<Rightarrow> (Inr None, w1)
           | Inr ((instructions, row_version) # _) \<Rightarrow>
               let cached_value = Instr_tuple instructions row_version
               in (Inr (Some cached_value),
                   w1\<lparr>cache := cache_set (cache w1) now k cached_value\<rparr>))"

text \<open>\<open>PromptService.get_spec_mode_prompt\<close>.\<close>

definition get_spec_mode_prompt ::
  "store \<Rightarrow> service \<Rightarrow> real \<Rightarrow> string \<Rightarrow> int option \<Rightarrow> (error + cached option) \<times> service" where
  "get_spec_mode_prompt S w now mode version =
     (let k = cache_key ''mode'' mode (or_zero version) in
      if cache_contains (cache w) now k then cache_hit w now k
      else
        let q = version_filter version;
            w1 = w\<lparr>executed := executed w @ [(Spec_mode_prompts, mode, q)]\<rparr>
        in case spec_mode_prompts S mode q of
             Inl msg \<Rightarrow> (Inl (Failure msg), w1)
           | Inr [] \<Rightarrow> (Inr None, w1)
           | Inr ((instructions, row_version) # _) \<Rightarrow>
               let cached_value = Instr_tuple instructions row_version
               in (Inr (Some cached_value),
                   w1\<lparr>cache := cache_set (cache w1) now k cached_value\<rparr>))"

text \<open>\<open>PromptService.clear_cache\<close>.\<close>

definition clear_cache :: "service \<Rightarrow> service" where
  "clear_cache w = w\<lparr>cache := cache_clear (cache w)\<rparr>"

section \<open>Prompt composer\<close>























text \<open>
  The spec's \<open>getOrFetch(kind, identifier, version?)\<close>: the fetch operation of a table,
  and the cache key it uses.
\<close>

definition get_or_fetch ::
  "store \<Rightarrow> service \<Rightarrow> real \<Rightarrow> table \<Rightarrow> string \<Rightarrow> int option
     \<Rightarrow> (error + cached option) \<times> service" where
  "get_or_fetch S w now t identifier version =
     (case t of
        Base_prompts \<Rightarrow> get_base_prompt S w now identifier version
      | Agent_prompts \<Rightarrow> get_agent_prompt S w now identifier version
      | Spec_mode_prompts \<Rightarrow> get_spec_mode_prompt S w now identifier version)"

definition key_of :: "table \<Rightarrow> string \<Rightarrow> int option \<Rightarrow> string" where
  "key_of t identifier version =
     cache_key (case t of Base_prompts \<Rightarrow> ''base'' | Agent_prompts \<Rightarrow> ''agent''
                | Spec_mode_prompts \<Rightarrow> ''mode'') identifier (or_zero version)"




text \<open>A store for examples: one base prompt, one spec mode, no agent; and a fresh service.\<close>

definition demo_store :: store where
  "demo_store =
     \<lparr>base_prompts = (\<lambda>slug q. if slug = ''spec-generation''
          then Inr [(''Write the spec.'', 3, 1)] else Inr []),
      agent_prompts = (\<lambda>a q. Inr []),
      spec_mode_prompts = (\<lambda>m q. if m = ''mvp''
          then Inr [(''Keep it small.'', 2)] else Inr [])\<rparr>"

definition fresh :: service where
  "fresh = \<lparr>cache = get_cache 300, executed = []\<rparr>"


section \<open>Facts about the cache and the fetch operations\<close>



lemma fields_after_set [simp]:
  "ttl (cache_set c t k v) = ttl c" "maxsize (cache_set c t k v) = maxsize c"
  by (simp_all add: cache_set_def Let_def)













lemmas service_eval =
  demo_store_def fresh_def get_cache_def get_or_fetch_def get_base_prompt_def
  get_agent_prompt_def get_spec_mode_prompt_def cache_key_def or_zero_def version_filter_def
  truthy_def cache_contains_def cache_hit_def cache_get_def cache_set_def live_def Let_def
  str_int_def str_nat.simps digit_def key_of_def







text \<open>
  Claim C10. For each of the three fetch operations, asking for version 0 is the same as
  asking for no version: same result, same cache key, same effect on the service; and no
  query with the filter \<open>version = 0\<close> is ever built.
\<close>

theorem version_zero_is_latest:
  "get_base_prompt S w now i (Some 0) = get_base_prompt S w now i None
   \<and> get_agent_prompt S w now i (Some 0) = get_agent_prompt S w now i None
   \<and> get_spec_mode_prompt S w now i (Some 0) = get_spec_mode_prompt S w now i None
   \<and> key_of t i (Some 0) = key_of t i None
   \<and> version_filter ver \<noteq> Some 0"
proof -
  have same: "or_zero (Some 0) = or_zero None" "version_filter (Some 0) = version_filter None"
    by (simp_all add: or_zero_def version_filter_def truthy_def)
  have "version_filter ver \<noteq> Some 0"
    by (simp add: version_filter_def truthy_def split: option.splits)
  then show ?thesis
    unfolding get_base_prompt_def get_agent_prompt_def get_spec_mode_prompt_def key_of_def same
    by simp
qed

theorem version_zero_is_latest_witness:
  "get_base_prompt demo_store fresh 0 ''spec-generation'' (Some 0)
     = get_base_prompt demo_store fresh 0 ''spec-generation'' None
   \<and> fst (get_base_prompt demo_store fresh 0 ''spec-generation'' (Some 0))
     = Inr (Some (Base_tuple ''Write the spec.'' 3 1))"
  using version_zero_is_latest [of demo_store fresh 0 "''spec-generation''" Base_prompts None]
  by (simp add: service_eval)


section \<open>Facts about the composition\<close>




















end
